theory Spec2Isabelle
  imports Complex_Main "HOL-Library.Word"
begin

section \<open>Python values, errors and the object store\<close>

text \<open>
  The exceptions that the code of \<^verbatim>\<open>bloom_filter.py\<close> can raise. The spec's
  \<^verbatim>\<open>InvalidArgument\<close> is the code's \<^verbatim>\<open>TypeError\<close> or \<^verbatim>\<open>ValueError\<close> at construction,
  its \<^verbatim>\<open>IncompatibleFilter\<close> is the \<^verbatim>\<open>ValueError\<close> of \<^verbatim>\<open>put_all\<close>.
\<close>

datatype error = TypeError | ValueError | ZeroDivisionError | OverflowError | AttributeError

text \<open>
  A Python float is a finite real number, an infinity or NaN. Finite floats are
  modelled by the real number they stand for: rounding and the finite range of the
  64-bit format are not part of the model.
\<close>

datatype pyfloat = Finite real | PosInf | NegInf | NaN

type_synonym addr = nat

text \<open>
  The Python values that reach the filter as arguments. \<open>PyFilter a\<close> is a
  reference to the BloomFilter instance stored at address \<open>a\<close>: two references
  are the same instance exactly when their addresses are equal (Python's \<^verbatim>\<open>id\<close>).
\<close>

datatype pyval =
    PyInt int
  | PyBool bool
  | PyFloat pyfloat
  | PyComplex pyfloat pyfloat
  | PyStr string
  | PyNone
  | PyList "pyval list"
  | PyFilter addr

type_synonym byte = "8 word"

text \<open>A hash function of the pool: bytes to an unsigned 64-bit digest.\<close>

type_synonym hasher = "byte list \<Rightarrow> 64 word"

text \<open>The instance attributes of a BloomFilter.\<close>

record bloom_filter =
  expected_insertions :: int
  fp_rate :: pyfloat
  bit_array :: "bool list"
  hash_functions :: "hasher list"

text \<open>The store: the BloomFilter instances alive, an instance's address is its index.\<close>

type_synonym heap = "bloom_filter list"

section \<open>Built-ins used by the code\<close>

text \<open>\<^verbatim>\<open>isinstance(x, int)\<close>: \<^verbatim>\<open>bool\<close> is a subclass of \<^verbatim>\<open>int\<close>.\<close>

fun isinstance_int :: "pyval \<Rightarrow> bool" where
  "isinstance_int (PyInt i) = True"
| "isinstance_int (PyBool b) = True"
| "isinstance_int v = False"

text \<open>The integer an instance of \<^verbatim>\<open>int\<close> stands for (\<^verbatim>\<open>True\<close> is 1).\<close>

fun int_value :: "pyval \<Rightarrow> int" where
  "int_value (PyInt i) = i"
| "int_value (PyBool b) = (if b then 1 else 0)"
| "int_value v = 0"

text \<open>\<^verbatim>\<open>isinstance(x, numbers.Number)\<close> and \<^verbatim>\<open>isinstance(x, complex)\<close>.\<close>

fun isinstance_Number :: "pyval \<Rightarrow> bool" where
  "isinstance_Number (PyInt i) = True"
| "isinstance_Number (PyBool b) = True"
| "isinstance_Number (PyFloat x) = True"
| "isinstance_Number (PyComplex re im) = True"
| "isinstance_Number v = False"

fun isinstance_complex :: "pyval \<Rightarrow> bool" where
  "isinstance_complex (PyComplex re im) = True"
| "isinstance_complex v = False"

text \<open>
  The comparisons \<^verbatim>\<open>x <= 0\<close> and \<^verbatim>\<open>x >= 1\<close> on a real number of Python: every
  comparison with NaN is false.
\<close>

fun le_zero :: "pyval \<Rightarrow> bool" where
  "le_zero (PyInt i) = (i \<le> 0)"
| "le_zero (PyBool b) = (\<not> b)"
| "le_zero (PyFloat (Finite r)) = (r \<le> 0)"
| "le_zero (PyFloat NegInf) = True"
| "le_zero v = False"

fun ge_one :: "pyval \<Rightarrow> bool" where
  "ge_one (PyInt i) = (1 \<le> i)"
| "ge_one (PyBool b) = b"
| "ge_one (PyFloat (Finite r)) = (1 \<le> r)"
| "ge_one (PyFloat PosInf) = True"
| "ge_one v = False"

text \<open>The float that \<^verbatim>\<open>math.log\<close> converts its argument to.\<close>

fun float_value :: "pyval \<Rightarrow> pyfloat" where
  "float_value (PyFloat x) = x"
| "float_value v = Finite (real_of_int (int_value v))"

text \<open>
  \<^verbatim>\<open>round(x)\<close> of a float, one argument: the nearest integer, a tie goes to the
  even neighbour.
\<close>

definition py_round :: "real \<Rightarrow> int" where
  "py_round x =
     (let f = \<lfloor>x\<rfloor>; d = x - of_int f in
      if d < 1 / 2 then f
      else if 1 / 2 < d then f + 1
      else if even f then f else f + 1)"

text \<open>The slice \<^verbatim>\<open>xs[:k]\<close>: a negative \<open>k\<close> counts from the end, and a \<open>k\<close> beyond
  the length gives the whole list.\<close>

definition slice_to :: "'a list \<Rightarrow> int \<Rightarrow> 'a list" where
  "slice_to xs k = (if 0 \<le> k then take (nat k) xs else take (length xs - nat (- k)) xs)"

text \<open>
  \<^verbatim>\<open>x.to_bytes(length, byteorder='big', signed=True)\<close>: the two's complement of
  \<open>x\<close> on \<open>length\<close> bytes, most significant byte first; OverflowError when \<open>x\<close>
  does not fit.
\<close>

definition to_bytes :: "int \<Rightarrow> nat \<Rightarrow> error + byte list" where
  "to_bytes x len =
     (if len = 0 then (if x = 0 then Inr [] else Inl OverflowError)
      else if x < - (2 ^ (8 * len - 1)) \<or> 2 ^ (8 * len - 1) \<le> x then Inl OverflowError
      else Inr (map (\<lambda>i. word_of_int (x div 256 ^ (len - 1 - i))) [0..<len]))"

text \<open>
  Modelled from the spec: the constructor \<^verbatim>\<open>bitarray(length)\<close> belongs to the
  \<^verbatim>\<open>bitarray\<close> package, which is not part of the repository. The spec has it
  allocate \<open>a bit array of length m initialized to all zeros\<close>; a negative length is
  a ValueError.
\<close>

definition bitarray :: "int \<Rightarrow> error + bool list" where
  "bitarray len = (if len < 0 then Inl ValueError else Inr (replicate (nat len) False))"

text \<open>The in-place \<^verbatim>\<open>a |= b\<close> of two bit arrays: their lengths must agree.\<close>

definition bitarray_ior :: "bool list \<Rightarrow> bool list \<Rightarrow> error + bool list" where
  "bitarray_ior a b =
     (if length a \<noteq> length b then Inl ValueError else Inr (map2 (\<or>) a b))"

section \<open>The class BloomFilter\<close>

text \<open>
  \<^verbatim>\<open>_hash_fn_pool = [partial(xxh3_64_intdigest, seed=i) for i in range(30)]\<close>.
  The digest function of the \<^verbatim>\<open>xxhash\<close> package is a parameter \<open>xxh\<close> of the
  model: \<open>xxh seed\<close> is the hash function with that seed.
\<close>

definition hash_fn_pool :: "(nat \<Rightarrow> hasher) \<Rightarrow> hasher list" where
  "hash_fn_pool xxh = map xxh [0..<30]"

text \<open>
  \<^verbatim>\<open>_make_bit_array\<close>: \<^verbatim>\<open>length = ceil(-n * log(p) / log(2) ** 2)\<close>, then
  \<^verbatim>\<open>bitarray(length)\<close>. \<^verbatim>\<open>math.log\<close> raises ValueError outside its domain,
  \<^verbatim>\<open>ceil\<close> raises ValueError on NaN and OverflowError on an infinity.
\<close>

definition bit_count :: "int \<Rightarrow> real \<Rightarrow> int" where
  "bit_count n r = \<lceil>- real_of_int n * ln r / (ln 2) ^ 2\<rceil>"

definition make_bit_array :: "int \<Rightarrow> pyfloat \<Rightarrow> error + bool list" where
  "make_bit_array n p =
     (case p of
        Finite r \<Rightarrow>
          if r \<le> 0 then Inl ValueError
          else bitarray (bit_count n r)
      | PosInf \<Rightarrow> if n = 0 then Inl ValueError else Inl OverflowError
      | NegInf \<Rightarrow> Inl ValueError
      | NaN \<Rightarrow> Inl ValueError)"

text \<open>
  \<^verbatim>\<open>_pick_hash_functions\<close>: \<^verbatim>\<open>k = round((m / n) * log(2))\<close> and the slice
  \<^verbatim>\<open>_hash_fn_pool[:k]\<close>.
\<close>

definition hash_count :: "int \<Rightarrow> nat \<Rightarrow> int" where
  "hash_count n m = py_round (real m / real_of_int n * ln 2)"

definition pick_hash_functions :: "(nat \<Rightarrow> hasher) \<Rightarrow> int \<Rightarrow> bool list \<Rightarrow> error + hasher list" where
  "pick_hash_functions xxh n ba =
     (let m = length ba in
      if n = 0 then Inl ZeroDivisionError
      else Inr (slice_to (hash_fn_pool xxh) (hash_count n m)))"

text \<open>\<^verbatim>\<open>__init__\<close>: the checks in the order of the source, then the four attributes.\<close>

definition init :: "(nat \<Rightarrow> hasher) \<Rightarrow> pyval \<Rightarrow> pyval \<Rightarrow> error + bloom_filter" where
  "init xxh n_arg p_arg =
     (if \<not> isinstance_int n_arg then Inl TypeError
      else if int_value n_arg \<le> 0 then Inl ValueError
      else if \<not> isinstance_Number p_arg then Inl TypeError
      else if isinstance_complex p_arg then Inl TypeError
      else if le_zero p_arg \<or> ge_one p_arg then Inl ValueError
      else
        (case make_bit_array (int_value n_arg) (float_value p_arg) of
           Inl e \<Rightarrow> Inl e
         | Inr ba \<Rightarrow>
             (case pick_hash_functions xxh (int_value n_arg) ba of
                Inl e \<Rightarrow> Inl e
              | Inr hs \<Rightarrow>
                  Inr \<lparr>expected_insertions = int_value n_arg, fp_rate = float_value p_arg,
                       bit_array = ba, hash_functions = hs\<rparr>)))"

text \<open>
  The call \<^verbatim>\<open>BloomFilter(expected_insertions, fp_rate)\<close>: a new instance at a fresh
  address when \<^verbatim>\<open>__init__\<close> returns, no instance when it raises.
\<close>

definition BloomFilter :: "(nat \<Rightarrow> hasher) \<Rightarrow> heap \<Rightarrow> pyval \<Rightarrow> pyval \<Rightarrow> (error + addr) \<times> heap" where
  "BloomFilter xxh heap n_arg p_arg =
     (case init xxh n_arg p_arg of
        Inl e \<Rightarrow> (Inl e, heap)
      | Inr f \<Rightarrow> (Inr (length heap), heap @ [f]))"


text \<open>\<^verbatim>\<open>_is_compatible\<close>, the four checks in the order of the source.\<close>

definition is_compatible :: "heap \<Rightarrow> addr \<Rightarrow> pyval \<Rightarrow> bool" where
  "is_compatible heap self other =
     (case other of
        PyFilter a \<Rightarrow>
          if self = a then False
          else if length (hash_functions (heap ! self)) \<noteq> length (hash_functions (heap ! a))
            then False
          else if length (bit_array (heap ! self)) \<noteq> length (bit_array (heap ! a))
            then False
          else True
      | _ \<Rightarrow> False)"

text \<open>
  \<^verbatim>\<open>hash(item).to_bytes(64, byteorder='big', signed=True)\<close>. The built-in
  \<^verbatim>\<open>hash\<close> is a parameter \<open>py_hash\<close> of the model: a signed 64-bit value, or
  TypeError for an unhashable item.
\<close>

definition byte_signature :: "(pyval \<Rightarrow> error + 64 word) \<Rightarrow> pyval \<Rightarrow> error + byte list" where
  "byte_signature py_hash item =
     (case py_hash item of Inl e \<Rightarrow> Inl e | Inr h \<Rightarrow> to_bytes (sint h) 64)"

text \<open>The loop of \<^verbatim>\<open>may_contain\<close>, with its early return.\<close>

fun may_contain_loop :: "bool list \<Rightarrow> byte list \<Rightarrow> hasher list \<Rightarrow> error + bool" where
  "may_contain_loop ba sg [] = Inr True"
| "may_contain_loop ba sg (hasher # hs) =
     (if length ba = 0 then Inl ZeroDivisionError
      else
        (let bucket = unat (hasher sg) mod length ba in
         if ba ! bucket = False then Inr False else may_contain_loop ba sg hs))"

definition may_contain :: "(pyval \<Rightarrow> error + 64 word) \<Rightarrow> heap \<Rightarrow> addr \<Rightarrow> pyval \<Rightarrow> error + bool" where
  "may_contain py_hash heap self item =
     (case byte_signature py_hash item of
        Inl e \<Rightarrow> Inl e
      | Inr sg \<Rightarrow> may_contain_loop (bit_array (heap ! self)) sg (hash_functions (heap ! self)))"

text \<open>
  The loop of \<^verbatim>\<open>put\<close>. The only failure is the modulo by an empty bit array, in
  the first round, before any bit is written.
\<close>

fun put_loop :: "bool list \<Rightarrow> byte list \<Rightarrow> hasher list \<Rightarrow> error + bool list" where
  "put_loop ba sg [] = Inr ba"
| "put_loop ba sg (hasher # hs) =
     (if length ba = 0 then Inl ZeroDivisionError
      else
        (let bucket = unat (hasher sg) mod length ba in
         put_loop (ba[bucket := True]) sg hs))"

definition put :: "(pyval \<Rightarrow> error + 64 word) \<Rightarrow> heap \<Rightarrow> addr \<Rightarrow> pyval \<Rightarrow> (error + unit) \<times> heap" where
  "put py_hash heap self item =
     (case byte_signature py_hash item of
        Inl e \<Rightarrow> (Inl e, heap)
      | Inr sg \<Rightarrow>
          (case put_loop (bit_array (heap ! self)) sg (hash_functions (heap ! self)) of
             Inl e \<Rightarrow> (Inl e, heap)
           | Inr ba \<Rightarrow> (Inr (), heap[self := (heap ! self)\<lparr>bit_array := ba\<rparr>])))"

text \<open>\<^verbatim>\<open>put_all\<close>: the union in place when compatible, ValueError otherwise.\<close>

definition put_all :: "heap \<Rightarrow> addr \<Rightarrow> pyval \<Rightarrow> (error + unit) \<times> heap" where
  "put_all heap self other =
     (if is_compatible heap self other then
        (case other of
           PyFilter a \<Rightarrow>
             (case bitarray_ior (bit_array (heap ! self)) (bit_array (heap ! a)) of
                Inl e \<Rightarrow> (Inl e, heap)
              | Inr ba \<Rightarrow> (Inr (), heap[self := (heap ! self)\<lparr>bit_array := ba\<rparr>]))
         | _ \<Rightarrow> (Inl AttributeError, heap))
      else (Inl ValueError, heap))"

text \<open>\<^verbatim>\<open>__contains__\<close> delegates to \<^verbatim>\<open>may_contain\<close>.\<close>

definition contains :: "(pyval \<Rightarrow> error + 64 word) \<Rightarrow> heap \<Rightarrow> addr \<Rightarrow> pyval \<Rightarrow> error + bool" where
  "contains py_hash heap self item = may_contain py_hash heap self item"

section \<open>Sequences of mutating calls\<close>

text \<open>
  The two mutators as calls on the store. A call that raises leaves the store as it
  is, and the caller goes on with the next call.
\<close>

datatype call = Put addr pyval | PutAll addr pyval

fun step :: "(pyval \<Rightarrow> error + 64 word) \<Rightarrow> heap \<Rightarrow> call \<Rightarrow> heap" where
  "step py_hash heap (Put self item) = snd (put py_hash heap self item)"
| "step py_hash heap (PutAll self other) = snd (put_all heap self other)"

fun run :: "(pyval \<Rightarrow> error + 64 word) \<Rightarrow> heap \<Rightarrow> call list \<Rightarrow> heap" where
  "run py_hash heap [] = heap"
| "run py_hash heap (c # cs) = run py_hash (step py_hash heap c) cs"

section \<open>The specification's side\<close>

text \<open>
  The conditions of the specification on the constructor's arguments, in its words:
  \<open>expected_insertions\<close> of an integer type and positive, \<open>false_positive_rate\<close> a
  real (non-complex) number strictly between 0 and 1.
\<close>

fun is_real_number :: "pyval \<Rightarrow> bool" where
  "is_real_number (PyInt i) = True"
| "is_real_number (PyBool b) = True"
| "is_real_number (PyFloat x) = True"
| "is_real_number v = False"

fun in_open_unit :: "pyval \<Rightarrow> bool" where
  "in_open_unit (PyInt i) = (0 < i \<and> i < 1)"
| "in_open_unit (PyBool b) = False"
| "in_open_unit (PyFloat (Finite r)) = (0 < r \<and> r < 1)"
| "in_open_unit v = False"

definition invalid_argument :: "pyval \<Rightarrow> pyval \<Rightarrow> bool" where
  "invalid_argument n_arg p_arg \<longleftrightarrow>
     \<not> isinstance_int n_arg \<or> int_value n_arg \<le> 0 \<or>
     \<not> is_real_number p_arg \<or> \<not> in_open_unit p_arg"



text \<open>
  The specification's incompatibility of an argument of \<^verbatim>\<open>put_all\<close>: not a
  BloomFilter, the receiver itself, another number of hash functions or another
  length of the bit array.
\<close>

definition spec_incompatible :: "heap \<Rightarrow> addr \<Rightarrow> pyval \<Rightarrow> bool" where
  "spec_incompatible heap self other =
     (case other of
        PyFilter a \<Rightarrow>
          a = self \<or>
          length (hash_functions (heap ! a)) \<noteq> length (hash_functions (heap ! self)) \<or>
          length (bit_array (heap ! a)) \<noteq> length (bit_array (heap ! self))
      | _ \<Rightarrow> True)"

section \<open>Notions for the analysis\<close>

text \<open>The bucket indices that both loops visit for a signature.\<close>

definition buckets :: "bool list \<Rightarrow> byte list \<Rightarrow> hasher list \<Rightarrow> nat list" where
  "buckets ba sg hs = map (\<lambda>hasher. unat (hasher sg) mod length ba) hs"

text \<open>The 64 bytes of a hash value, as \<open>to_bytes\<close> lays them out.\<close>

definition signature_bytes :: "64 word \<Rightarrow> byte list" where
  "signature_bytes h = map (\<lambda>i. word_of_int (sint h div 256 ^ (64 - 1 - i))) [0..<64]"

text \<open>
  \<open>grows f g\<close>: \<open>g\<close> is \<open>f\<close> after mutations, the same parameters and hash
  functions, a bit array of the same length in which every 1 of \<open>f\<close> is still 1.
\<close>

definition grows :: "bloom_filter \<Rightarrow> bloom_filter \<Rightarrow> bool" where
  "grows f g \<longleftrightarrow>
     expected_insertions g = expected_insertions f \<and> fp_rate g = fp_rate f \<and>
     hash_functions g = hash_functions f \<and>
     length (bit_array g) = length (bit_array f) \<and>
     list_all2 (\<lambda>old new. old \<longrightarrow> new) (bit_array f) (bit_array g)"

text \<open>
  The invariant of an instance: a bit array that is not empty, and hash functions
  that are a prefix of the pool.
\<close>

definition well_formed :: "(nat \<Rightarrow> hasher) \<Rightarrow> bloom_filter \<Rightarrow> bool" where
  "well_formed xxh f \<longleftrightarrow>
     0 < length (bit_array f) \<and>
     hash_functions f = take (length (hash_functions f)) (hash_fn_pool xxh)"

section \<open>Stand-ins for the examples\<close>

text \<open>
  A digest and a built-in hash to run the model on concrete inputs. They stand in
  for \<^verbatim>\<open>xxh3_64_intdigest\<close> and \<^verbatim>\<open>hash\<close>; like Python's \<^verbatim>\<open>hash\<close>, \<open>demo_hash\<close>
  gives 1 for the integer 1, the float 1.0 and \<^verbatim>\<open>True\<close>, and raises for a list.
\<close>

definition demo_xxh :: "nat \<Rightarrow> hasher" where
  "demo_xxh seed bs = word_of_nat seed + ucast (last bs)"

fun demo_hash :: "pyval \<Rightarrow> error + 64 word" where
  "demo_hash (PyInt i) = Inr (word_of_int i)"
| "demo_hash (PyBool b) = Inr (if b then 1 else 0)"
| "demo_hash (PyFloat (Finite r)) = Inr (word_of_int \<lfloor>r\<rfloor>)"
| "demo_hash (PyStr s) = Inr (word_of_nat (length s) + 1)"
| "demo_hash (PyList vs) = Inl TypeError"
| "demo_hash v = Inr 0"

text \<open>The instances that \<^verbatim>\<open>BloomFilter(1, 0.875)\<close> and \<^verbatim>\<open>BloomFilter(2, 0.5)\<close> create.\<close>

definition filter_1 :: bloom_filter where
  "filter_1 = \<lparr>expected_insertions = 1, fp_rate = Finite (7 / 8),
      bit_array = [False], hash_functions = [demo_xxh 0]\<rparr>"

definition filter_2 :: bloom_filter where
  "filter_2 = \<lparr>expected_insertions = 2, fp_rate = Finite (1 / 2),
      bit_array = [False, False, False], hash_functions = [demo_xxh 0]\<rparr>"

section \<open>Arithmetic of the sizing formulas\<close>

lemma ln2_gt_half: "1 / 2 < ln (2::real)"
proof -
  have "exp (1 / 2 :: real) \<le> 1 + 1 / 2 + (1 / 2)\<^sup>2"
    by (rule exp_bound) simp_all
  also have "\<dots> < 2" by (simp add: power2_eq_square)
  finally have "exp (1 / 2 :: real) < exp (ln 2)" by simp
  then show ?thesis by (simp only: exp_less_cancel_iff)
qed

lemma py_round_near:
  assumes "\<bar>x - of_int j\<bar> < 1 / 2"
  shows "py_round x = j"
proof (cases "of_int j \<le> x")
  case True
  with assms have "\<lfloor>x\<rfloor> = j" by linarith
  with assms True show ?thesis by (simp add: py_round_def Let_def)
next
  case False
  with assms have fl: "\<lfloor>x\<rfloor> = j - 1" by linarith
  with assms False have "1 / 2 < x - of_int (j - 1)" by simp
  with fl show ?thesis by (simp add: py_round_def Let_def)
qed

lemma py_round_ln2: "py_round (ln 2) = 1"
  using ln2_gt_half ln_2_less_1 by (intro py_round_near) simp

lemma bit_len_pos:
  assumes "0 < n" "0 < r" "r < 1"
  shows "0 < bit_count n r"
proof -
  have "ln r < 0" using assms by simp
  then have "0 < - real_of_int n * ln r" using assms(1)
    by (simp add: mult_pos_neg)
  moreover have "0 < (ln (2::real)) ^ 2" by simp
  ultimately have "0 < - real_of_int n * ln r / (ln 2) ^ 2" by (rule divide_pos_pos)
  then show ?thesis unfolding bit_count_def by linarith
qed

lemma hash_count_pow2:
  assumes n: "2 \<le> n"
  shows "hash_count n (nat (bit_count n (1 / 2 ^ j))) = int j"
proof -
  define L where "L = ln (2::real)"
  have L: "0 < L" "L < 1" using ln_2_less_1 by (simp_all add: L_def)
  define x where "x = real_of_int n * real j / L"
  have lnp: "ln (1 / 2 ^ j :: real) = - real j * L"
    by (simp add: ln_div ln_realpow L_def)
  have xeq: "- real_of_int n * ln (1 / 2 ^ j) / (ln 2) ^ 2 = x"
    using L by (simp add: lnp x_def L_def[symmetric] power2_eq_square)
  have x0: "0 \<le> x" using n L by (simp add: x_def)
  define m where "m = \<lceil>x\<rceil>"
  have m0: "0 \<le> m" using x0 by (simp add: m_def)
  have mb: "x \<le> of_int m" "of_int m < x + 1" unfolding m_def by linarith+
  have npos: "0 < real_of_int n" using n by simp
  have xl: "x * L / real_of_int n = real j" using L npos by (simp add: x_def)
  have lo: "real j \<le> of_int m * L / real_of_int n"
  proof -
    have "x * L / real_of_int n \<le> of_int m * L / real_of_int n"
      using mb(1) L npos by (simp add: divide_right_mono mult_right_mono)
    then show ?thesis by (simp only: xl)
  qed
  have hi: "of_int m * L / real_of_int n < real j + 1 / 2"
  proof -
    have "of_int m * L / real_of_int n < (x + 1) * L / real_of_int n"
      using mb(2) L npos by (simp add: divide_strict_right_mono)
    also have "\<dots> = real j + L / real_of_int n" using xl by (simp add: algebra_simps add_divide_distrib)
    also have "L / real_of_int n \<le> L / 2" using n L by (intro divide_left_mono) simp_all
    also have "L / 2 < 1 / 2" using L by simp
    finally show ?thesis by simp
  qed
  define y where "y = of_int m / real_of_int n * L"
  have ylo: "real j \<le> y" and yhi: "y < real j + 1 / 2"
    using lo hi by (simp_all add: y_def)
  have "\<bar>y - of_int (int j)\<bar> < 1 / 2"
    using ylo yhi unfolding of_int_of_nat_eq by linarith
  then have "py_round y = int j" by (rule py_round_near)
  then have "py_round (of_int m / real_of_int n * L) = int j" by (simp only: y_def)
  moreover have "nat (bit_count n (1 / 2 ^ j)) = nat m"
    by (simp only: bit_count_def xeq m_def)
  moreover have "real (nat m) = of_int m" using m0 by simp
  ultimately show ?thesis by (simp only: hash_count_def L_def)
qed

lemma ln2_ge_two_thirds: "2 / 3 \<le> ln (2::real)"
proof -
  have b: "exp (1 / 12 :: real) \<le> 1 + 1 / 12 + (1 / 12)\<^sup>2"
    by (rule exp_bound) simp_all
  have "exp (2 / 3 :: real) = exp (of_nat 8 * (1 / 12))" by simp
  also have "\<dots> = exp (1 / 12) ^ 8" by (rule exp_of_nat_mult)
  also have "\<dots> \<le> (1 + 1 / 12 + (1 / 12)\<^sup>2) ^ 8"
    using b by (intro power_mono) simp_all
  also have "\<dots> \<le> 2" by (simp add: power2_eq_square field_simps)
  finally have "exp (2 / 3 :: real) \<le> exp (ln 2)" by simp
  then show ?thesis by (simp only: exp_le_cancel_iff)
qed

lemma bit_count_1: "bit_count 1 (7 / 8) = 1"
proof -
  have "ln (7 / 8 :: real) = - ln (8 / 7)"
    by (simp add: ln_div)
  moreover have "ln (1 + 1 / 7 :: real) \<le> 1 / 7" by (rule ln_add_one_self_le_self) simp
  ultimately have up: "- ln (7 / 8 :: real) \<le> 1 / 7" by simp
  have "(1 / 2) ^ 2 < (ln (2::real)) ^ 2"
    using ln2_gt_half by (intro power_strict_mono) simp_all
  then have sq: "1 / 4 < (ln (2::real)) ^ 2" by (simp add: power2_eq_square)
  have "- ln (7 / 8 :: real) / (ln 2) ^ 2 \<le> 1"
    using up sq by (simp add: field_simps)
  moreover have "0 < bit_count 1 (7 / 8)" by (rule bit_len_pos) simp_all
  ultimately show ?thesis unfolding bit_count_def by (simp add: ceiling_le_iff le_less) linarith
qed

lemma hash_count_1: "hash_count 1 1 = 1"
  using py_round_ln2 by (simp add: hash_count_def)

lemma bit_count_2: "bit_count 2 (1 / 2) = 3"
proof -
  define L where "L = ln (2::real)"
  have L: "2 / 3 \<le> L" "L < 1" using ln2_ge_two_thirds ln_2_less_1 by (simp_all add: L_def)
  have "ln (1 / 2 :: real) = - L" by (simp add: ln_div L_def)
  then have eq: "- real_of_int 2 * ln (1 / 2) / (ln 2) ^ 2 = 2 / L"
    using L by (simp add: L_def[symmetric] power2_eq_square)
  have "2 < 2 / L" "2 / L \<le> 3" using L by (simp_all add: field_simps)
  then have "\<lceil>2 / L\<rceil> = 3" by linarith
  then show ?thesis by (simp only: bit_count_def eq)
qed

lemma hash_count_2: "hash_count 2 3 = 1"
proof -
  have "\<bar>real 3 / real_of_int 2 * ln 2 - of_int 1\<bar> < 1 / 2"
    using ln2_ge_two_thirds ln_2_less_1 by (simp add: abs_less_iff)
  then show ?thesis unfolding hash_count_def by (rule py_round_near)
qed

section \<open>The constructor\<close>

lemma valid_cases:
  assumes "\<not> invalid_argument n_arg p_arg"
  obtains r where "p_arg = PyFloat (Finite r)" "0 < r" "r < 1"
    "isinstance_int n_arg" "0 < int_value n_arg"
proof -
  from assms have n: "isinstance_int n_arg" "0 < int_value n_arg"
    and p: "in_open_unit p_arg"
    by (auto simp: invalid_argument_def)
  from p obtain r where "p_arg = PyFloat (Finite r)" "0 < r" "r < 1"
    by (cases p_arg rule: in_open_unit.cases) auto
  with n that show thesis by blast
qed

lemma init_valid:
  assumes "isinstance_int n_arg" "0 < int_value n_arg" "0 < r" "r < 1"
  shows "init xxh n_arg (PyFloat (Finite r)) =
     Inr \<lparr>expected_insertions = int_value n_arg, fp_rate = Finite r,
          bit_array = replicate (nat (bit_count (int_value n_arg) r)) False,
          hash_functions = slice_to (hash_fn_pool xxh)
            (hash_count (int_value n_arg) (nat (bit_count (int_value n_arg) r)))\<rparr>"
proof -
  have pos: "0 < bit_count (int_value n_arg) r"
    using assms(2-4) by (rule bit_len_pos)
  have mk: "make_bit_array (int_value n_arg) (Finite r) =
      Inr (replicate (nat (bit_count (int_value n_arg) r)) False)"
    using pos assms(3) by (simp add: make_bit_array_def bitarray_def)
  have pk: "pick_hash_functions xxh (int_value n_arg)
        (replicate (nat (bit_count (int_value n_arg) r)) False) =
      Inr (slice_to (hash_fn_pool xxh)
        (hash_count (int_value n_arg) (nat (bit_count (int_value n_arg) r))))"
    using assms(2) by (simp add: pick_hash_functions_def)
  show ?thesis
    using assms by (simp add: init_def mk pk)
qed

lemma init_invalid:
  assumes "invalid_argument n_arg p_arg"
  shows "init xxh n_arg p_arg = Inl TypeError \<or> init xxh n_arg p_arg = Inl ValueError"
proof (cases "isinstance_int n_arg \<and> 0 < int_value n_arg")
  case False
  then show ?thesis by (auto simp: init_def)
next
  case True
  with assms have p: "\<not> is_real_number p_arg \<or> \<not> in_open_unit p_arg"
    by (auto simp: invalid_argument_def)
  show ?thesis
  proof (cases p_arg)
    case (PyFloat x)
    with p True show ?thesis
      by (cases x) (auto simp: init_def make_bit_array_def)
  qed (use p True in \<open>auto simp: init_def\<close>)
qed

lemma init_Inr_valid:
  assumes "init xxh n_arg p_arg = Inr f"
  shows "\<not> invalid_argument n_arg p_arg"
  using init_invalid [of n_arg p_arg xxh] assms by auto

section \<open>The loops of put and may_contain\<close>

lemma buckets_length_cong: "length ba' = length ba \<Longrightarrow> buckets ba' sg hs = buckets ba sg hs"
  by (simp add: buckets_def)

lemma buckets_less: "0 < length ba \<Longrightarrow> b \<in> set (buckets ba sg hs) \<Longrightarrow> b < length ba"
  by (auto simp: buckets_def)

lemma put_loop_length: "put_loop ba sg hs = Inr ba' \<Longrightarrow> length ba' = length ba"
  by (induction hs arbitrary: ba) (auto simp: Let_def split: if_splits)

lemma put_loop_total: "0 < length ba \<Longrightarrow> \<exists>ba'. put_loop ba sg hs = Inr ba'"
  by (induction hs arbitrary: ba) (auto simp: Let_def)

lemma put_loop_nth:
  "put_loop ba sg hs = Inr ba' \<Longrightarrow> i < length ba \<Longrightarrow>
     ba' ! i = (ba ! i \<or> i \<in> set (buckets ba sg hs))"
proof (induction hs arbitrary: ba)
  case Nil
  then show ?case by (simp add: buckets_def)
next
  case (Cons hasher hs)
  define b where "b = unat (hasher sg) mod length ba"
  from Cons.prems(2) have pos: "0 < length ba" by auto
  with Cons.prems have rest: "put_loop (ba[b := True]) sg hs = Inr ba'"
    by (simp add: Let_def b_def)
  have "ba' ! i = ((ba[b := True]) ! i \<or> i \<in> set (buckets (ba[b := True]) sg hs))"
    using Cons.IH [OF rest] Cons.prems(2) by simp
  moreover have "buckets (ba[b := True]) sg hs = buckets ba sg hs"
    by (rule buckets_length_cong) simp
  moreover have "b < length ba" using pos by (simp add: b_def)
  then have "(ba[b := True]) ! i = (i = b \<or> ba ! i)"
    by (cases "i = b") (simp_all add: nth_list_update)
  moreover have "set (buckets ba sg (hasher # hs)) = insert b (set (buckets ba sg hs))"
    by (simp add: buckets_def b_def)
  ultimately show ?case by auto
qed

lemma may_contain_loop_eq:
  "0 < length ba \<Longrightarrow>
     may_contain_loop ba sg hs = Inr (list_all (\<lambda>b. ba ! b) (buckets ba sg hs))"
  by (induction hs) (auto simp: Let_def buckets_def)

lemma may_contain_loop_Nil: "may_contain_loop ba sg [] = Inr True"
  by simp

lemma put_then_contains:
  assumes "put_loop ba sg hs = Inr ba'"
  shows "may_contain_loop ba' sg hs = Inr True"
proof (cases hs)
  case Nil
  then show ?thesis by simp
next
  case (Cons hasher hs')
  with assms have pos: "0 < length ba" by (auto split: if_splits)
  have len: "length ba' = length ba" using assms by (rule put_loop_length)
  have "list_all (\<lambda>b. ba' ! b) (buckets ba sg hs)"
    unfolding list_all_iff
  proof
    fix b assume b: "b \<in> set (buckets ba sg hs)"
    then have "b < length ba" using pos by (rule buckets_less [rotated])
    with put_loop_nth [OF assms this] b show "ba' ! b" by simp
  qed
  moreover have "buckets ba' sg hs = buckets ba sg hs"
    using len by (rule buckets_length_cong)
  ultimately show ?thesis
    using pos len by (simp add: may_contain_loop_eq)
qed

lemma may_contain_loop_mono:
  assumes "length ba' = length ba" "list_all2 (\<lambda>old new. old \<longrightarrow> new) ba ba'"
    and "may_contain_loop ba sg hs = Inr True"
  shows "may_contain_loop ba' sg hs = Inr True"
  using assms(3)
proof (induction hs)
  case Nil
  then show ?case by simp
next
  case (Cons hasher hs)
  from Cons.prems have pos: "0 < length ba" by (auto split: if_splits)
  define b where "b = unat (hasher sg) mod length ba"
  have "b < length ba" using pos by (simp add: b_def)
  with assms(2) have imp: "ba ! b \<longrightarrow> ba' ! b" by (simp add: list_all2_conv_all_nth)
  from Cons.prems pos have "ba ! b" "may_contain_loop ba sg hs = Inr True"
    by (auto simp: Let_def b_def split: if_splits)
  with imp Cons.IH pos show ?case by (simp add: Let_def b_def assms(1))
qed

section \<open>Signatures and growth of an instance\<close>

lemma sint64_fits: "- (2 ^ 511) \<le> sint (h :: 64 word) \<and> sint h < 2 ^ 511"
proof -
  have "- (2 ^ 63) \<le> sint h" "sint h < 2 ^ 63"
    using sint_ge [of h] sint_lt [of h] by simp_all
  moreover have "(2::int) ^ 63 \<le> 2 ^ 511" by (rule power_increasing) simp_all
  ultimately show ?thesis by linarith
qed

lemma to_bytes_sint64: "\<exists>sg. to_bytes (sint (h :: 64 word)) 64 = Inr sg"
proof -
  have "\<not> (sint h < - (2 ^ (8 * 64 - 1)) \<or> 2 ^ (8 * 64 - 1) \<le> sint h)"
    using sint64_fits [of h] by simp
  then show ?thesis unfolding to_bytes_def by (simp only: if_False) simp
qed

lemma byte_signature_hashable:
  assumes "py_hash item = Inr h"
  obtains sg where "byte_signature py_hash item = Inr sg"
  using assms to_bytes_sint64 [of h] by (auto simp: byte_signature_def)

lemma byte_signature_cong:
  "py_hash x = py_hash y \<Longrightarrow> byte_signature py_hash x = byte_signature py_hash y"
  by (simp add: byte_signature_def)

lemma grows_refl: "grows f f"
  unfolding grows_def by (simp add: list_all2_refl)

lemma grows_trans:
  assumes "grows f g" "grows g h"
  shows "grows f h"
proof -
  have "list_all2 (\<lambda>old new. old \<longrightarrow> new) (bit_array f) (bit_array g)"
    and "list_all2 (\<lambda>old new. old \<longrightarrow> new) (bit_array g) (bit_array h)"
    using assms by (simp_all only: grows_def)
  then have "list_all2 (\<lambda>old new. old \<longrightarrow> new) (bit_array f) (bit_array h)"
    by (rule list_all2_trans [rotated]) blast
  moreover have "expected_insertions h = expected_insertions f" "fp_rate h = fp_rate f"
    "hash_functions h = hash_functions f" "length (bit_array h) = length (bit_array f)"
    using assms unfolding grows_def by (simp_all only:)
  ultimately show ?thesis unfolding grows_def by (intro conjI)
qed

lemma grows_put_loop:
  assumes "put_loop (bit_array f) sg (hash_functions f) = Inr ba"
  shows "grows f (f\<lparr>bit_array := ba\<rparr>)"
proof -
  have len: "length ba = length (bit_array f)"
    using assms by (rule put_loop_length)
  have "list_all2 (\<lambda>old new. old \<longrightarrow> new) (bit_array f) ba"
    unfolding list_all2_conv_all_nth
  proof (intro conjI allI impI)
    show "length (bit_array f) = length ba" using len by simp
  next
    fix i assume "i < length (bit_array f)" "bit_array f ! i"
    then show "ba ! i" using put_loop_nth [OF assms, of i] by simp
  qed
  with len show ?thesis by (simp add: grows_def)
qed

lemma grows_ior:
  assumes "bitarray_ior (bit_array f) bs = Inr ba"
  shows "grows f (f\<lparr>bit_array := ba\<rparr>)"
proof -
  from assms have len: "length (bit_array f) = length bs"
    and ba: "ba = map2 (\<or>) (bit_array f) bs"
    by (auto simp: bitarray_ior_def split: if_splits)
  have "list_all2 (\<lambda>old new. old \<longrightarrow> new) (bit_array f) ba"
    unfolding list_all2_conv_all_nth using len by (simp add: ba)
  with len show ?thesis by (simp add: grows_def ba)
qed

section \<open>Calls on the store\<close>

lemma grows_hash_functions: "grows f g \<Longrightarrow> hash_functions g = hash_functions f"
  by (simp only: grows_def)

lemma grows_length: "grows f g \<Longrightarrow> length (bit_array g) = length (bit_array f)"
  by (simp only: grows_def)


lemma grows_bits:
  "grows f g \<Longrightarrow> list_all2 (\<lambda>old new. old \<longrightarrow> new) (bit_array f) (bit_array g)"
  by (simp only: grows_def)

lemma put_snd:
  "snd (put py_hash heap self item) = heap \<or>
   (\<exists>sg ba. byte_signature py_hash item = Inr sg \<and>
      put_loop (bit_array (heap ! self)) sg (hash_functions (heap ! self)) = Inr ba \<and>
      snd (put py_hash heap self item) = heap[self := (heap ! self)\<lparr>bit_array := ba\<rparr>])"
  by (simp add: put_def split: sum.splits)

lemma put_all_snd:
  "snd (put_all heap self other) = heap \<or>
   (\<exists>a ba. other = PyFilter a \<and>
      bitarray_ior (bit_array (heap ! self)) (bit_array (heap ! a)) = Inr ba \<and>
      snd (put_all heap self other) = heap[self := (heap ! self)\<lparr>bit_array := ba\<rparr>])"
  by (simp add: put_all_def split: sum.splits pyval.splits)

lemma update_grows:
  assumes "a < length heap" "grows (heap ! self) g"
  shows "grows (heap ! a) (heap[self := g] ! a)"
proof (cases "a = self")
  case True
  with assms show ?thesis by simp
next
  case False
  then show ?thesis by (simp add: grows_refl)
qed

lemma put_length: "length (snd (put py_hash heap self item)) = length heap"
  using put_snd [of py_hash heap self item] by auto

lemma put_all_length: "length (snd (put_all heap self other)) = length heap"
  using put_all_snd [of heap self other] by auto

lemma put_grows:
  assumes "a < length heap"
  shows "grows (heap ! a) (snd (put py_hash heap self item) ! a)"
  using put_snd [of py_hash heap self item]
proof (elim disjE exE conjE)
  assume "snd (put py_hash heap self item) = heap"
  then show ?thesis by (simp add: grows_refl)
next
  fix sg ba
  assume loop: "put_loop (bit_array (heap ! self)) sg (hash_functions (heap ! self)) = Inr ba"
    and eq: "snd (put py_hash heap self item) = heap[self := (heap ! self)\<lparr>bit_array := ba\<rparr>]"
  show ?thesis unfolding eq using assms grows_put_loop [OF loop] by (rule update_grows)
qed

lemma put_all_grows:
  assumes "a < length heap"
  shows "grows (heap ! a) (snd (put_all heap self other) ! a)"
  using put_all_snd [of heap self other]
proof (elim disjE exE conjE)
  assume "snd (put_all heap self other) = heap"
  then show ?thesis by (simp add: grows_refl)
next
  fix b ba
  assume ior: "bitarray_ior (bit_array (heap ! self)) (bit_array (heap ! b)) = Inr ba"
    and eq: "snd (put_all heap self other) = heap[self := (heap ! self)\<lparr>bit_array := ba\<rparr>]"
  show ?thesis unfolding eq using assms grows_ior [OF ior] by (rule update_grows)
qed

lemma step_length: "length (step py_hash heap c) = length heap"
  by (cases c) (simp_all add: put_length put_all_length)

lemma step_grows: "a < length heap \<Longrightarrow> grows (heap ! a) (step py_hash heap c ! a)"
  by (cases c) (simp_all add: put_grows put_all_grows)

lemma run_length: "length (run py_hash heap cs) = length heap"
  by (induction cs arbitrary: heap) (simp_all add: step_length)

lemma run_grows: "a < length heap \<Longrightarrow> grows (heap ! a) (run py_hash heap cs ! a)"
proof (induction cs arbitrary: heap)
  case Nil
  then show ?case by (simp add: grows_refl)
next
  case (Cons c cs)
  have "grows (heap ! a) (step py_hash heap c ! a)"
    using Cons.prems by (rule step_grows)
  moreover have "grows (step py_hash heap c ! a) (run py_hash (step py_hash heap c) cs ! a)"
    using Cons.prems by (intro Cons.IH) (simp add: step_length)
  ultimately have "grows (heap ! a) (run py_hash (step py_hash heap c) cs ! a)"
    by (rule grows_trans)
  then show ?case by simp
qed

lemma grows_may_contain:
  assumes "grows (heap ! a) (heap' ! b)"
    and "may_contain py_hash heap a item = Inr True"
  shows "may_contain py_hash heap' b item = Inr True"
proof (cases "byte_signature py_hash item")
  case (Inl e)
  with assms(2) show ?thesis by (simp add: may_contain_def)
next
  case (Inr sg)
  with assms(2) have "may_contain_loop (bit_array (heap ! a)) sg (hash_functions (heap ! a)) = Inr True"
    by (simp add: may_contain_def)
  with grows_length [OF assms(1)] grows_bits [OF assms(1)]
  have "may_contain_loop (bit_array (heap' ! b)) sg (hash_functions (heap ! a)) = Inr True"
    by (rule may_contain_loop_mono)
  with Inr grows_hash_functions [OF assms(1)] show ?thesis by (simp add: may_contain_def)
qed

section \<open>Constructed instances\<close>


lemma init_zero_bits:
  assumes "init xxh n_arg p_arg = Inr f"
  shows "bit_array f = replicate (length (bit_array f)) False"
proof -
  from init_Inr_valid [OF assms] obtain r where
    "p_arg = PyFloat (Finite r)" "0 < r" "r < 1" "isinstance_int n_arg" "0 < int_value n_arg"
    by (rule valid_cases)
  with assms init_valid [of n_arg r xxh] show ?thesis by auto
qed

lemma take_length_take: "take (length (take n xs)) xs = take n xs"
  by (cases "n \<le> length xs") (simp_all add: min_def)

lemma hash_fn_pool_length: "length (hash_fn_pool xxh) = 30"
  by (simp add: hash_fn_pool_def)

lemma hash_count_nonneg:
  assumes "0 < n"
  shows "0 \<le> hash_count n m"
proof -
  have "0 \<le> real m / real_of_int n * ln 2" using assms by simp
  then have "0 \<le> \<lfloor>real m / real_of_int n * ln 2\<rfloor>" by simp
  then show ?thesis by (simp add: hash_count_def py_round_def Let_def)
qed

lemma init_well_formed:
  assumes "init xxh n_arg p_arg = Inr f"
  shows "well_formed xxh f"
proof -
  from init_Inr_valid [OF assms] obtain r where v:
    "p_arg = PyFloat (Finite r)" "0 < r" "r < 1" "isinstance_int n_arg" "0 < int_value n_arg"
    by (rule valid_cases)
  have pos: "0 < bit_count (int_value n_arg) r" using v(5,2,3) by (rule bit_len_pos)
  have k: "0 \<le> hash_count (int_value n_arg) (nat (bit_count (int_value n_arg) r))"
    using v(5) by (rule hash_count_nonneg)
  from assms init_valid [OF v(4,5,2,3), of xxh] v(1)
  have f: "bit_array f = replicate (nat (bit_count (int_value n_arg) r)) False"
    "hash_functions f = slice_to (hash_fn_pool xxh)
        (hash_count (int_value n_arg) (nat (bit_count (int_value n_arg) r)))"
    by auto
  have "hash_functions f = take (nat (hash_count (int_value n_arg)
      (nat (bit_count (int_value n_arg) r)))) (hash_fn_pool xxh)"
    using k by (simp add: f slice_to_def)
  then have "hash_functions f = take (length (hash_functions f)) (hash_fn_pool xxh)"
    by (simp only: take_length_take)
  moreover have "0 < length (bit_array f)" using pos by (simp add: f)
  ultimately show ?thesis by (simp only: well_formed_def simp_thms)
qed

lemma grows_well_formed: "grows f g \<Longrightarrow> well_formed xxh f \<Longrightarrow> well_formed xxh g"
  by (simp add: well_formed_def grows_hash_functions grows_length)

lemma pool_first: "slice_to (hash_fn_pool xxh) 1 = [xxh 0]"
  by (simp add: slice_to_def hash_fn_pool_def take_map upt_rec)

lemma init_filter_1: "init demo_xxh (PyInt 1) (PyFloat (Finite (7 / 8))) = Inr filter_1"
proof -
  have "hash_count 1 (Suc 0) = 1" using hash_count_1 by simp
  then show ?thesis
    using init_valid [of "PyInt 1" "7 / 8" demo_xxh]
    by (simp add: bit_count_1 pool_first filter_1_def)
qed

lemma init_filter_2: "init demo_xxh (PyInt 2) (PyFloat (Finite (1 / 2))) = Inr filter_2"
proof -
  have "hash_count 2 (Suc (Suc (Suc 0))) = 1" using hash_count_2 by (simp only: numeral_3_eq_3)
  then show ?thesis
    using init_valid [of "PyInt 2" "1 / 2" demo_xxh]
    by (simp add: bit_count_2 pool_first filter_2_def numeral_3_eq_3)
qed

lemma well_formed_filter_1: "well_formed demo_xxh filter_1"
  using init_filter_1 by (rule init_well_formed)

lemma well_formed_filter_2: "well_formed demo_xxh filter_2"
  using init_filter_2 by (rule init_well_formed)

section \<open>Insertion and lookup\<close>

lemma byte_signature_eq:
  assumes "py_hash item = Inr h"
  shows "byte_signature py_hash item = Inr (signature_bytes h)"
proof -
  have "\<not> (sint h < - (2 ^ (8 * 64 - 1)) \<or> 2 ^ (8 * 64 - 1) \<le> sint h)"
    using sint64_fits [of h] by simp
  then have "to_bytes (sint h) 64 = Inr (signature_bytes h)"
    unfolding to_bytes_def signature_bytes_def by (simp only: if_False) simp
  with assms show ?thesis by (simp add: byte_signature_def)
qed

lemma demo_hash_one:
  "demo_hash (PyInt 1) = Inr 1" "demo_hash (PyFloat (Finite 1)) = Inr 1"
  "demo_hash (PyBool True) = Inr 1"
  by simp_all

lemma put_succeeds:
  assumes "0 < length (bit_array (heap ! self))" "py_hash x = Inr h"
  obtains ba where
    "put_loop (bit_array (heap ! self)) (signature_bytes h) (hash_functions (heap ! self)) = Inr ba"
    "put py_hash heap self x = (Inr (), heap[self := (heap ! self)\<lparr>bit_array := ba\<rparr>])"
proof -
  from put_loop_total [OF assms(1)] obtain ba where
    ba: "put_loop (bit_array (heap ! self)) (signature_bytes h) (hash_functions (heap ! self)) = Inr ba"
    by blast
  then have "put py_hash heap self x = (Inr (), heap[self := (heap ! self)\<lparr>bit_array := ba\<rparr>])"
    using byte_signature_eq [of py_hash x h] assms(2) by (simp add: put_def)
  with ba that show thesis by blast
qed

lemma put_then_may_contain:
  assumes "self < length heap" "0 < length (bit_array (heap ! self))" "py_hash x = Inr h"
  shows "may_contain py_hash (snd (put py_hash heap self x)) self x = Inr True"
proof -
  from assms(2,3) obtain ba where
    ba: "put_loop (bit_array (heap ! self)) (signature_bytes h) (hash_functions (heap ! self)) = Inr ba"
    and eq: "put py_hash heap self x = (Inr (), heap[self := (heap ! self)\<lparr>bit_array := ba\<rparr>])"
    by (rule put_succeeds)
  have "may_contain_loop ba (signature_bytes h) (hash_functions (heap ! self)) = Inr True"
    using ba by (rule put_then_contains)
  then show ?thesis
    using assms(1) byte_signature_eq [of py_hash x h] assms(3)
    by (simp add: eq may_contain_def)
qed

section \<open>Union of two instances\<close>

lemma covers_may_contain:
  assumes "hash_functions (heap' ! b) = hash_functions (heap ! a)"
    and "length (bit_array (heap' ! b)) = length (bit_array (heap ! a))"
    and "list_all2 (\<lambda>old new. old \<longrightarrow> new) (bit_array (heap ! a)) (bit_array (heap' ! b))"
    and "may_contain py_hash heap a item = Inr True"
  shows "may_contain py_hash heap' b item = Inr True"
proof (cases "byte_signature py_hash item")
  case (Inl e)
  with assms(4) show ?thesis by (simp add: may_contain_def)
next
  case (Inr sg)
  with assms(4) have "may_contain_loop (bit_array (heap ! a)) sg (hash_functions (heap ! a)) = Inr True"
    by (simp add: may_contain_def)
  with assms(2,3)
  have "may_contain_loop (bit_array (heap' ! b)) sg (hash_functions (heap ! a)) = Inr True"
    by (rule may_contain_loop_mono)
  with Inr assms(1) show ?thesis by (simp add: may_contain_def)
qed

lemma compatible_same_hash_functions:
  assumes "well_formed xxh f" "well_formed xxh g"
    and "length (hash_functions f) = length (hash_functions g)"
  shows "hash_functions f = hash_functions g"
proof -
  have "hash_functions f = take (length (hash_functions f)) (hash_fn_pool xxh)"
    using assms(1) by (simp only: well_formed_def)
  also have "\<dots> = take (length (hash_functions g)) (hash_fn_pool xxh)"
    by (simp only: assms(3))
  also have "\<dots> = hash_functions g"
    using assms(2) by (simp only: well_formed_def)
  finally show ?thesis .
qed

lemma is_compatible_iff:
  "is_compatible heap self (PyFilter a) \<longleftrightarrow>
     self \<noteq> a \<and> length (hash_functions (heap ! self)) = length (hash_functions (heap ! a)) \<and>
     length (bit_array (heap ! self)) = length (bit_array (heap ! a))"
  by (simp add: is_compatible_def)

section \<open>Filters for a rate that is a power of one half\<close>



lemma slice_to_length:
  "0 \<le> k \<Longrightarrow> length (slice_to xs k) = min (nat k) (length xs)"
  by (simp add: slice_to_def)

lemma init_pow2:
  assumes "2 \<le> n" "0 < j"
  shows "init xxh (PyInt n) (PyFloat (Finite (1 / 2 ^ j))) =
     Inr \<lparr>expected_insertions = n, fp_rate = Finite (1 / 2 ^ j),
          bit_array = replicate (nat (bit_count n (1 / 2 ^ j))) False,
          hash_functions = take j (hash_fn_pool xxh)\<rparr>"
proof -
  have r: "0 < (1 / 2 ^ j :: real)" "(1 / 2 ^ j :: real) < 1"
    using assms(2) by (simp_all add: field_simps one_less_power)
  have "slice_to (hash_fn_pool xxh) (int j) = take j (hash_fn_pool xxh)"
    by (simp add: slice_to_def)
  then show ?thesis
    using init_valid [of "PyInt n" "1 / 2 ^ j" xxh] assms(1) r
    by (simp add: hash_count_pow2)
qed

lemma hash_functions_count_pow2:
  assumes "2 \<le> n" "30 \<le> j"
  shows "map_sum id (length \<circ> hash_functions)
     (init xxh (PyInt n) (PyFloat (Finite (1 / 2 ^ j)))) = Inr 30"
proof -
  from assms(2) have "0 < j" by simp
  from init_pow2 [OF assms(1) this, of xxh] assms(2) show ?thesis
    by (simp add: hash_fn_pool_length)
qed

section \<open>Insertion into a filter with no bit set\<close>




section \<open>The invariant along the life of an instance\<close>

lemma BloomFilter_well_formed:
  assumes "BloomFilter xxh heap n_arg p_arg = (Inr a, heap')"
  shows "a = length heap \<and> length heap' = Suc (length heap) \<and> well_formed xxh (heap' ! a) \<and>
     take (length heap) heap' = heap"
proof (cases "init xxh n_arg p_arg")
  case (Inl e)
  with assms show ?thesis by (simp add: BloomFilter_def)
next
  case (Inr f)
  with assms have "a = length heap" "heap' = heap @ [f]"
    by (auto simp: BloomFilter_def)
  with init_well_formed [OF Inr] show ?thesis by simp
qed

lemma run_well_formed:
  assumes "a < length heap" "well_formed xxh (heap ! a)"
  shows "well_formed xxh (run py_hash heap calls ! a)"
  using run_grows [OF assms(1)] assms(2) by (rule grows_well_formed)

section \<open>The claims\<close>

text \<open>
  C1. Zero false negatives: for every hashable item and every instance, \<open>put\<close> of the
  item succeeds, and \<open>may_contain\<close> of it is true afterwards and stays true after any
  sequence of further \<open>put\<close> and \<open>put_all\<close> calls on the store.
\<close>

theorem no_false_negatives:
  assumes "self < length heap" "well_formed xxh (heap ! self)" "py_hash x = Inr h"
  shows "fst (put py_hash heap self x) = Inr () \<and>
     may_contain py_hash (run py_hash (snd (put py_hash heap self x)) calls) self x = Inr True"
proof -
  from assms(2) have pos: "0 < length (bit_array (heap ! self))"
    by (simp add: well_formed_def)
  from pos assms(3) obtain ba where
    "put py_hash heap self x = (Inr (), heap[self := (heap ! self)\<lparr>bit_array := ba\<rparr>])"
    by (rule put_succeeds)
  then have ok: "fst (put py_hash heap self x) = Inr ()" by simp
  have now: "may_contain py_hash (snd (put py_hash heap self x)) self x = Inr True"
    using assms(1) pos assms(3) by (rule put_then_may_contain)
  have "self < length (snd (put py_hash heap self x))"
    using assms(1) by (simp add: put_length)
  then have "grows (snd (put py_hash heap self x) ! self)
      (run py_hash (snd (put py_hash heap self x)) calls ! self)"
    by (rule run_grows)
  then have "may_contain py_hash (run py_hash (snd (put py_hash heap self x)) calls) self x = Inr True"
    using now by (rule grows_may_contain)
  with ok show ?thesis by (rule conjI)
qed

theorem no_false_negatives_witness:
  "fst (put demo_hash [filter_2] 0 (PyStr ''hello'')) = Inr () \<and>
   may_contain demo_hash
     (run demo_hash (snd (put demo_hash [filter_2] 0 (PyStr ''hello'')))
        [Put 0 (PyStr ''world''), Put 0 (PyInt 7), PutAll 0 (PyFilter 0)])
     0 (PyStr ''hello'') = Inr True"
  using no_false_negatives [of 0 "[filter_2]" demo_xxh demo_hash "PyStr ''hello''" 6
      "[Put 0 (PyStr ''world''), Put 0 (PyInt 7), PutAll 0 (PyFilter 0)]"]
    well_formed_filter_2
  by simp

text \<open>
  C2. On successful construction the allocated bit array has every bit equal to 0: no
  bucket of a fresh filter holds a 1. The zero initialisation is the one of
  \<open>bitarray\<close>, modelled from the specification.
\<close>

theorem fresh_bit_array_all_zero:
  assumes "BloomFilter xxh heap n_arg p_arg = (Inr self, heap')"
  shows "\<forall>b \<in> set (bit_array (heap' ! self)). b = False"
proof (cases "init xxh n_arg p_arg")
  case (Inl e)
  with assms show ?thesis by (simp add: BloomFilter_def)
next
  case (Inr f)
  with assms have "heap' ! self = f" by (auto simp: BloomFilter_def)
  moreover have "set (bit_array f) \<subseteq> {False}"
    using init_zero_bits [OF Inr] by (metis set_replicate_conv_if empty_subsetI subset_refl)
  ultimately show ?thesis by auto
qed

theorem fresh_bit_array_all_zero_witness:
  "BloomFilter demo_xxh [] (PyInt 2) (PyFloat (Finite (1 / 2))) = (Inr 0, [filter_2]) \<and>
   set (bit_array ([filter_2] ! 0)) \<subseteq> {False}"
proof -
  have b: "BloomFilter demo_xxh [] (PyInt 2) (PyFloat (Finite (1 / 2))) = (Inr 0, [filter_2])"
    by (simp add: BloomFilter_def init_filter_2)
  from fresh_bit_array_all_zero [OF b] have "set (bit_array ([filter_2] ! 0)) \<subseteq> {False}"
    by blast
  with b show ?thesis by (rule conjI)
qed

text \<open>
  C3. \<open>put_all\<close> raises the specification's IncompatibleFilter (the ValueError of the
  code) if and only if the argument is not a BloomFilter instance, or is the receiver
  itself, or has another number of hash functions, or another length of the bit array;
  otherwise it succeeds; and when it raises, the store is unchanged.
\<close>

theorem put_all_rejects_incompatible:
  "(fst (put_all heap self other) = Inl ValueError \<longleftrightarrow> spec_incompatible heap self other) \<and>
   (\<not> spec_incompatible heap self other \<longrightarrow> fst (put_all heap self other) = Inr ()) \<and>
   (fst (put_all heap self other) \<noteq> Inr () \<longrightarrow> snd (put_all heap self other) = heap)"
proof (cases other)
  case (PyFilter a)
  then show ?thesis
    by (auto simp: put_all_def is_compatible_def spec_incompatible_def bitarray_ior_def)
qed (simp_all add: put_all_def is_compatible_def spec_incompatible_def)

theorem put_all_rejects_incompatible_witness:
  "spec_incompatible [filter_1, filter_2] 0 (PyList [PyInt 0, PyInt 0, PyInt 0]) \<and>
   put_all [filter_1, filter_2] 0 (PyList [PyInt 0, PyInt 0, PyInt 0]) =
     (Inl ValueError, [filter_1, filter_2]) \<and>
   spec_incompatible [filter_1, filter_2] 0 (PyFilter 0) \<and>
   put_all [filter_1, filter_2] 0 (PyFilter 0) = (Inl ValueError, [filter_1, filter_2]) \<and>
   spec_incompatible [filter_1, filter_2] 0 (PyFilter 1) \<and>
   put_all [filter_1, filter_2] 0 (PyFilter 1) = (Inl ValueError, [filter_1, filter_2]) \<and>
   \<not> spec_incompatible [filter_1, filter_1] 0 (PyFilter 1) \<and>
   fst (put_all [filter_1, filter_1] 0 (PyFilter 1)) = Inr ()"
proof -
  have a: "spec_incompatible [filter_1, filter_2] 0 (PyList [PyInt 0, PyInt 0, PyInt 0])"
    and b: "spec_incompatible [filter_1, filter_2] 0 (PyFilter 0)"
    and c: "spec_incompatible [filter_1, filter_2] 0 (PyFilter 1)"
    and d: "\<not> spec_incompatible [filter_1, filter_1] 0 (PyFilter 1)"
    by (simp_all add: spec_incompatible_def filter_1_def filter_2_def)
  show ?thesis
    using a b c d
      put_all_rejects_incompatible [of "[filter_1, filter_2]" 0 "PyList [PyInt 0, PyInt 0, PyInt 0]"]
      put_all_rejects_incompatible [of "[filter_1, filter_2]" 0 "PyFilter 0"]
      put_all_rejects_incompatible [of "[filter_1, filter_2]" 0 "PyFilter 1"]
      put_all_rejects_incompatible [of "[filter_1, filter_1]" 0 "PyFilter 1"]
    by (simp add: prod_eq_iff)
qed



text \<open>
  C5. Where the derived number of hash functions exceeds the 30 of the pool,
  construction should fail. The code does not fail: for \<open>BloomFilter(1000, 2 ** -35)\<close>
  the derived \<open>k\<close> is 35, construction succeeds, and the slice of the pool silently
  gives the filter 30 hash functions.
\<close>

theorem pool_overrun_is_silent:
  "map_sum id (length \<circ> hash_functions)
     (init xxh (PyInt 1000) (PyFloat (Finite (1 / 2 ^ 35)))) = Inr 30 \<and>
   hash_count 1000 (nat (bit_count 1000 (1 / 2 ^ 35))) = 35"
proof -
  have "hash_count 1000 (nat (bit_count 1000 (1 / 2 ^ 35))) = int 35"
    by (rule hash_count_pow2) simp
  moreover have "map_sum id (length \<circ> hash_functions)
     (init xxh (PyInt 1000) (PyFloat (Finite (1 / 2 ^ 35)))) = Inr 30"
    by (rule hash_functions_count_pow2) simp_all
  ultimately show ?thesis by simp
qed

text \<open>
  C6. For two compatible filters, \<open>put_all\<close> replaces the receiver's bit array by the
  element-wise OR of both bit arrays, leaves the other filter unchanged, and every item
  for which \<open>may_contain\<close> was true on either filter before is true on the receiver
  afterwards.
\<close>

theorem put_all_union:
  assumes "self < length heap" "a < length heap"
    and "well_formed xxh (heap ! self)" "well_formed xxh (heap ! a)"
    and "is_compatible heap self (PyFilter a)"
  shows "put_all heap self (PyFilter a) =
       (Inr (), heap[self := (heap ! self)
          \<lparr>bit_array := map2 (\<or>) (bit_array (heap ! self)) (bit_array (heap ! a))\<rparr>]) \<and>
     snd (put_all heap self (PyFilter a)) ! a = heap ! a \<and>
     (may_contain py_hash heap self x = Inr True \<or> may_contain py_hash heap a x = Inr True \<longrightarrow>
        may_contain py_hash (snd (put_all heap self (PyFilter a))) self x = Inr True)"
proof -
  define ba where "ba = map2 (\<or>) (bit_array (heap ! self)) (bit_array (heap ! a))"
  define heap' where "heap' = heap[self := (heap ! self)\<lparr>bit_array := ba\<rparr>]"
  from assms(5) have ne: "self \<noteq> a"
    and k: "length (hash_functions (heap ! self)) = length (hash_functions (heap ! a))"
    and m: "length (bit_array (heap ! self)) = length (bit_array (heap ! a))"
    by (simp_all add: is_compatible_iff)
  have eq: "put_all heap self (PyFilter a) = (Inr (), heap')"
    using assms(5) m by (simp add: put_all_def bitarray_ior_def heap'_def ba_def)
  have other: "heap' ! a = heap ! a"
    using ne by (simp add: heap'_def)
  have self': "heap' ! self = (heap ! self)\<lparr>bit_array := ba\<rparr>"
    using assms(1) by (simp add: heap'_def)
  have len: "length ba = length (bit_array (heap ! self))"
    using m by (simp add: ba_def)
  have hs: "hash_functions (heap ! self) = hash_functions (heap ! a)"
    using assms(3,4) k by (rule compatible_same_hash_functions)
  have from_self: "list_all2 (\<lambda>old new. old \<longrightarrow> new) (bit_array (heap ! self)) ba"
    using m by (simp add: list_all2_conv_all_nth ba_def)
  have from_other: "list_all2 (\<lambda>old new. old \<longrightarrow> new) (bit_array (heap ! a)) ba"
    using m by (simp add: list_all2_conv_all_nth ba_def)
  have "may_contain py_hash heap' self x = Inr True"
    if "may_contain py_hash heap self x = Inr True"
    using _ _ _ that by (rule covers_may_contain) (simp_all add: self' len from_self)
  moreover have "may_contain py_hash heap' self x = Inr True"
    if "may_contain py_hash heap a x = Inr True"
    using _ _ _ that by (rule covers_may_contain) (simp_all add: self' len m hs from_other)
  ultimately show ?thesis
    using other unfolding eq heap'_def ba_def by auto
qed

theorem put_all_union_witness:
  "put_all [filter_2, filter_2\<lparr>bit_array := [False, True, False]\<rparr>] 0 (PyFilter 1) =
     (Inr (), [filter_2\<lparr>bit_array := [False, True, False]\<rparr>,
               filter_2\<lparr>bit_array := [False, True, False]\<rparr>]) \<and>
   may_contain demo_hash [filter_2, filter_2\<lparr>bit_array := [False, True, False]\<rparr>] 1 (PyInt 1) = Inr True \<and>
   may_contain demo_hash
     (snd (put_all [filter_2, filter_2\<lparr>bit_array := [False, True, False]\<rparr>] 0 (PyFilter 1)))
     0 (PyInt 1) = Inr True"
proof -
  let ?g = "filter_2\<lparr>bit_array := [False, True, False]\<rparr>"
  have wf: "well_formed demo_xxh ([filter_2, ?g] ! 0)" "well_formed demo_xxh ([filter_2, ?g] ! 1)"
    using well_formed_filter_2 by (simp_all add: well_formed_def)
  have c: "is_compatible [filter_2, ?g] 0 (PyFilter 1)"
    by (simp add: is_compatible_def filter_2_def)
  have sg: "byte_signature demo_hash (PyInt 1) = Inr (signature_bytes 1)"
    by (rule byte_signature_eq) simp
  have b: "unat (demo_xxh 0 (signature_bytes 1)) = 1"
    by (simp add: demo_xxh_def signature_bytes_def last_map)
  have mc: "may_contain demo_hash [filter_2, ?g] 1 (PyInt 1) = Inr True"
    by (simp add: may_contain_def sg filter_2_def b)
  have lt: "(0::nat) < length [filter_2, ?g]" "(1::nat) < length [filter_2, ?g]"
    by simp_all
  note u = put_all_union [where heap = "[filter_2, ?g]" and self = 0 and a = 1
      and xxh = demo_xxh and py_hash = demo_hash and x = "PyInt 1", OF lt wf c]
  from u [THEN conjunct1]
  have e: "put_all [filter_2, ?g] 0 (PyFilter 1) = (Inr (), [?g, ?g])"
    by (simp add: filter_2_def)
  from u mc
  have "may_contain demo_hash (snd (put_all [filter_2, ?g] 0 (PyFilter 1))) 0 (PyInt 1) = Inr True"
    by blast
  with e mc show ?thesis by (intro conjI)
qed









text \<open>
  C10. The byte signature depends only on the built-in hash of the item: two items
  with the same hash (the integer 1, the float 1.0 and \<open>True\<close> for instance) have the
  same signature, \<open>put\<close> of one has the effect of \<open>put\<close> of the other and makes
  \<open>may_contain\<close> of the other true, and \<open>may_contain\<close> answers the same for both
  on every store.
\<close>

theorem equal_hash_items_indistinguishable:
  assumes "self < length heap" "well_formed xxh (heap ! self)"
    and "py_hash x = Inr h" "py_hash y = Inr h"
  shows "byte_signature py_hash x = byte_signature py_hash y \<and>
     put py_hash heap self x = put py_hash heap self y \<and>
     may_contain py_hash (snd (put py_hash heap self x)) self y = Inr True \<and>
     may_contain py_hash heap' a x = may_contain py_hash heap' a y"
proof -
  have sg: "byte_signature py_hash x = byte_signature py_hash y"
    using assms(3,4) by (simp add: byte_signature_def)
  then have p: "put py_hash heap self x = put py_hash heap self y"
    and m: "may_contain py_hash heap' a x = may_contain py_hash heap' a y"
    by (simp_all add: put_def may_contain_def)
  from assms(2) have pos: "0 < length (bit_array (heap ! self))"
    by (simp add: well_formed_def)
  have "may_contain py_hash (snd (put py_hash heap self y)) self y = Inr True"
    using assms(1) pos assms(4) by (rule put_then_may_contain)
  with sg p m show ?thesis by simp
qed

theorem equal_hash_items_indistinguishable_witness:
  "put demo_hash [filter_2] 0 (PyInt 1) = put demo_hash [filter_2] 0 (PyFloat (Finite 1)) \<and>
   may_contain demo_hash (snd (put demo_hash [filter_2] 0 (PyInt 1))) 0 (PyFloat (Finite 1)) = Inr True \<and>
   may_contain demo_hash (snd (put demo_hash [filter_2] 0 (PyInt 1))) 0 (PyBool True) = Inr True \<and>
   may_contain demo_hash [filter_2] 0 (PyInt 1) = may_contain demo_hash [filter_2] 0 (PyBool True)"
proof -
  have float: "byte_signature demo_hash (PyInt 1) = byte_signature demo_hash (PyFloat (Finite 1)) \<and>
     put demo_hash [filter_2] 0 (PyInt 1) = put demo_hash [filter_2] 0 (PyFloat (Finite 1)) \<and>
     may_contain demo_hash (snd (put demo_hash [filter_2] 0 (PyInt 1))) 0 (PyFloat (Finite 1)) = Inr True \<and>
     may_contain demo_hash [filter_2] 0 (PyInt 1) = may_contain demo_hash [filter_2] 0 (PyFloat (Finite 1))"
    by (rule equal_hash_items_indistinguishable [where xxh = demo_xxh and h = 1])
      (simp_all add: well_formed_filter_2)
  have bool: "byte_signature demo_hash (PyInt 1) = byte_signature demo_hash (PyBool True) \<and>
     put demo_hash [filter_2] 0 (PyInt 1) = put demo_hash [filter_2] 0 (PyBool True) \<and>
     may_contain demo_hash (snd (put demo_hash [filter_2] 0 (PyInt 1))) 0 (PyBool True) = Inr True \<and>
     may_contain demo_hash [filter_2] 0 (PyInt 1) = may_contain demo_hash [filter_2] 0 (PyBool True)"
    by (rule equal_hash_items_indistinguishable [where xxh = demo_xxh and h = 1])
      (simp_all add: well_formed_filter_2)
  from float bool show ?thesis by blast
qed

end
